theory Spec2Isabelle
  imports Main
begin

unbundle bit_operations_syntax

section \<open>Shared vocabulary\<close>

text \<open>
  Python integers are unbounded, so they are modelled as \<^typ>\<open>int\<close>; floor division and
  modulus of Python agree with \<open>div\<close> and \<open>mod\<close> on \<^typ>\<open>int\<close> for a non-zero divisor.
  Exceptions of the source are values of \<open>error\<close>.
\<close>

datatype error = ZeroDivisionError | ValueError | IndexError

text \<open>Primality of an integer, in a form that can be evaluated.\<close>

definition is_prime :: "int \<Rightarrow> bool" where
  "is_prime p \<longleftrightarrow> 1 < p \<and> (\<forall>d \<in> {2..<p}. \<not> d dvd p)"

section \<open>factor.py\<close>

subsection \<open>The Counter holding a decomposition\<close>

text \<open>
  A \<open>collections.Counter\<close> (a dict) is an association list in insertion order with
  pairwise different keys. Reading a missing key of a Counter gives 0; assigning to a
  present key keeps its position, assigning to a new key appends it.
\<close>

type_synonym counter = "(int \<times> nat) list"

fun get :: "counter \<Rightarrow> int \<Rightarrow> nat" where
  "get [] k = 0"
| "get ((k', v) # d) k = (if k' = k then v else get d k)"

fun put :: "int \<Rightarrow> nat \<Rightarrow> counter \<Rightarrow> counter" where
  "put k v [] = [(k, v)]"
| "put k v ((k', v') # d) = (if k' = k then (k, v) # d else (k', v') # put k v d)"

definition keys :: "counter \<Rightarrow> int list" where
  "keys d = map fst d"

subsection \<open>primeDecomposition\<close>

text \<open>
  The inner loop \<open>while not r: N = q; primeDecomp[pr] += 1; q, r = divmod(N, pr)\<close>.
  It is entered only with \<open>pr \<noteq> 0\<close> (the first \<open>divmod\<close> has raised otherwise). With
  \<open>pr = 1\<close> or \<open>pr = -1\<close> the remainder is always 0 and the loop never ends: the value
  is then \<open>None\<close>.
\<close>

partial_function (option) divide_while :: "int \<Rightarrow> int \<Rightarrow> counter \<Rightarrow> (int \<times> counter) option" where
  "divide_while pr N d =
     (if N mod pr = 0 then divide_while pr (N div pr) (put pr (get d pr + 1) d)
      else Some (N, d))"

declare divide_while.simps [code]

text \<open>
  The loop \<open>for pr in orderedPrimes\<close> over the rest of the table, with the current
  cofactor \<open>N\<close> and Counter \<open>d\<close>. \<open>orderedPrimes\<close> is loaded from a pickle file that is not
  part of the sources, so the table is a parameter.
\<close>

fun trial :: "int list \<Rightarrow> int \<Rightarrow> counter \<Rightarrow> (error + counter) option" where
  "trial [] N d = Some (Inr d)"
| "trial (pr # rest) N d =
     (if pr ^ 2 > N then Some (Inr (put N 1 d))
      else if pr = 0 then Some (Inl ZeroDivisionError)
      else (case divide_while pr N d of
              None \<Rightarrow> None
            | Some (N', d') \<Rightarrow> if N' = 1 then Some (Inr d') else trial rest N' d'))"

definition primeDecomposition :: "int list \<Rightarrow> int \<Rightarrow> (error + counter) option" where
  "primeDecomposition orderedPrimes N =
     (if N = 0 then Some (Inr []) else trial orderedPrimes \<bar>N\<bar> [])"

text \<open>Applying a pure continuation to an outcome that may have raised or diverged.\<close>

fun then_do :: "(error + 'a) option \<Rightarrow> ('a \<Rightarrow> 'b) \<Rightarrow> (error + 'b) option" where
  "then_do None f = None"
| "then_do (Some (Inl e)) f = Some (Inl e)"
| "then_do (Some (Inr x)) f = Some (Inr (f x))"

subsection \<open>decompCertificate\<close>

text \<open>
  \<open>reduce(operator.mul, map(lambda p: p**pDecomp[p], pDecomp), 1)\<close>: a left fold of the
  product over the keys in dict order.
\<close>

definition product_of :: "counter \<Rightarrow> int" where
  "product_of pDecomp = foldl (*) 1 (map (\<lambda>p. p ^ get pDecomp p) (keys pDecomp))"

text \<open>
  The parameter \<open>primeDecomp=False\<close>: \<open>None\<close> is the call without a decomposition,
  \<open>Some d\<close> the call with the dict \<open>d\<close>. The test \<open>if primeDecomp\<close> is Python truthiness,
  so the empty dict takes the same branch as \<open>False\<close>.
\<close>

definition decompCertificate :: "int list \<Rightarrow> int \<Rightarrow> counter option \<Rightarrow> (error + bool) option" where
  "decompCertificate orderedPrimes N primeDecomp =
     then_do (case primeDecomp of
                Some d \<Rightarrow> if d \<noteq> [] then Some (Inr d) else primeDecomposition orderedPrimes N
              | None \<Rightarrow> primeDecomposition orderedPrimes N)
             (\<lambda>pDecomp. \<bar>N\<bar> = product_of pDecomp)"

subsection \<open>divisors\<close>

text \<open>One pass of the inner loop body: \<open>allDivisors.update({factor*pr for factor in allDivisors})\<close>.\<close>

definition extend :: "int \<Rightarrow> int set \<Rightarrow> int set" where
  "extend pr allDivisors = allDivisors \<union> (\<lambda>factor. factor * pr) ` allDivisors"

text \<open>The loop \<open>for pr in primeDecomp\<close>, in dict order, each key \<open>primeDecomp[pr]\<close> times.\<close>

definition all_divisors :: "counter \<Rightarrow> int set" where
  "all_divisors primeDecomp =
     fold (\<lambda>pr allDivisors. (extend pr ^^ get primeDecomp pr) allDivisors) (keys primeDecomp) {1}"

definition divisors :: "int list \<Rightarrow> int \<Rightarrow> bool \<Rightarrow> (error + int list) option" where
  "divisors orderedPrimes N proper =
     (if N = 0 then Some (Inr [])
      else then_do (primeDecomposition orderedPrimes \<bar>N\<bar>)
             (\<lambda>primeDecomp.
                let allDivisors = all_divisors primeDecomp in
                sorted_list_of_set (if proper then allDivisors - {1, \<bar>N\<bar>} else allDivisors)))"

subsection \<open>expOverOne\<close>

definition expOverOne :: "int list \<Rightarrow> int \<Rightarrow> (error + counter) option" where
  "expOverOne orderedPrimes N =
     then_do (primeDecomposition orderedPrimes N)
       (\<lambda>primeDecomp. map (\<lambda>p. (p, get primeDecomp p))
                         (filter (\<lambda>p. get primeDecomp p > 1) (keys primeDecomp)))"

subsection \<open>Auxiliary notions for the proofs\<close>

text \<open>The product of \<open>p ^ m\<close> over the entries \<open>(p, m)\<close> of a decomposition.\<close>

definition pairs_product :: "counter \<Rightarrow> int" where
  "pairs_product d = prod_list (map (\<lambda>(p, m). p ^ m) d)"

text \<open>
  The expression \<open>decompCertificate(target, primeDecomposition(target))\<close>: the Counter
  returned by the first call is passed to the second one.
\<close>

definition certificate_of_own :: "int list \<Rightarrow> int \<Rightarrow> (error + bool) option" where
  "certificate_of_own orderedPrimes target =
     (case primeDecomposition orderedPrimes target of
        None \<Rightarrow> None
      | Some (Inl e) \<Rightarrow> Some (Inl e)
      | Some (Inr d) \<Rightarrow> decompCertificate orderedPrimes target (Some d))"

text \<open>The table of all primes up to \<open>M\<close>, in ascending order.\<close>

definition primes_upto :: "int \<Rightarrow> int list" where
  "primes_upto M = filter is_prime [2..M]"

section \<open>Evaluation of the inner loop\<close>

lemma divide_while_stop: "N mod pr \<noteq> 0 \<Longrightarrow> divide_while pr N d = Some (N, d)"
  by (subst divide_while.simps) simp

lemma divide_while_step:
  "N mod pr = 0 \<Longrightarrow> divide_while pr N d = divide_while pr (N div pr) (put pr (get d pr + 1) d)"
  by (subst divide_while.simps) simp

lemma is_prime_iff:
  "is_prime p \<longleftrightarrow> 1 < p \<and> (\<forall>d. 0 < d \<and> d dvd p \<longrightarrow> d = 1 \<or> d = p)"
proof
  assume h: "is_prime p"
  then have p1: "1 < p" and nd: "\<And>d. 2 \<le> d \<Longrightarrow> d < p \<Longrightarrow> \<not> d dvd p"
    by (auto simp: is_prime_def)
  have "d = 1 \<or> d = p" if "0 < d" "d dvd p" for d
  proof -
    have "d \<le> p" using that p1 by (simp add: zdvd_imp_le)
    then show ?thesis using nd [of d] that by force
  qed
  then show "1 < p \<and> (\<forall>d. 0 < d \<and> d dvd p \<longrightarrow> d = 1 \<or> d = p)" using p1 by blast
next
  assume "1 < p \<and> (\<forall>d. 0 < d \<and> d dvd p \<longrightarrow> d = 1 \<or> d = p)"
  then show "is_prime p" by (force simp: is_prime_def)
qed

lemma is_prime_gt1: "is_prime p \<Longrightarrow> 1 < p"
  by (simp add: is_prime_def)

lemma prime_factor_exists:
  fixes n :: int
  shows "1 < n \<Longrightarrow> \<exists>p. is_prime p \<and> p dvd n"
proof (induction "nat n" arbitrary: n rule: less_induct)
  case less
  show ?case
  proof (cases "is_prime n")
    case True then show ?thesis by (intro exI [of _ n]) simp
  next
    case False
    then obtain d where d: "0 < d" "d dvd n" "d \<noteq> 1" "d \<noteq> n"
      using less.prems by (auto simp: is_prime_iff)
    then have "d \<le> n" using less.prems by (simp add: zdvd_imp_le)
    then have "nat d < nat n" "1 < d" using d by auto
    then obtain p where "is_prime p" "p dvd d" using less.hyps by blast
    then show ?thesis using d(2) by (meson dvd_trans)
  qed
qed

lemma composite_small_factor:
  fixes n :: int
  assumes "1 < n" "\<not> is_prime n"
  shows "\<exists>p. is_prime p \<and> p dvd n \<and> p * p \<le> n"
proof -
  obtain d where d: "0 < d" "d dvd n" "d \<noteq> 1" "d \<noteq> n"
    using assms by (auto simp: is_prime_iff)
  then obtain e where e: "n = d * e" by (auto simp: dvd_def)
  have dn: "d \<le> n" using d assms by (simp add: zdvd_imp_le)
  have e0: "0 < e" using e d(1) assms(1) zero_less_mult_pos [of d e] by simp
  have e1: "e \<noteq> 1" using e d by auto
  define m where "m = min d e"
  have m: "1 < m" "m dvd n" "m * m \<le> n"
  proof -
    show "1 < m" using d e0 e1 by (auto simp: m_def min_def)
    show "m dvd n" using e by (auto simp: m_def min_def)
    have "m * m \<le> d * e"
      using d(1) e0 by (intro mult_mono) (auto simp: m_def)
    then show "m * m \<le> n" using e by simp
  qed
  obtain p where p: "is_prime p" "p dvd m" using prime_factor_exists [OF m(1)] by blast
  have "p \<le> m" using p m(1) by (simp add: zdvd_imp_le)
  moreover have "0 < p" using p(1) is_prime_gt1 by force
  ultimately have "p * p \<le> m * m" by (intro mult_mono) auto
  then show ?thesis using p m by (meson dvd_trans order_trans)
qed

lemma is_prime_coprime: "is_prime p \<Longrightarrow> \<not> p dvd a \<Longrightarrow> coprime p a"
proof (rule coprimeI)
  fix c assume h: "is_prime p" "\<not> p dvd a" "c dvd p" "c dvd a"
  have "\<bar>c\<bar> dvd p" "0 < \<bar>c\<bar>" using h is_prime_gt1 [of p] by auto
  then have "\<bar>c\<bar> = 1 \<or> \<bar>c\<bar> = p" using h(1) by (simp add: is_prime_iff)
  moreover have "\<bar>c\<bar> \<noteq> p" using h(2,4) by auto
  ultimately show "is_unit c" by simp
qed

lemma is_prime_dvd_mult:
  "is_prime p \<Longrightarrow> p dvd a * b \<Longrightarrow> p dvd a \<or> p dvd b"
  using is_prime_coprime coprime_dvd_mult_right_iff by blast

lemma is_prime_dvd_power: "is_prime p \<Longrightarrow> p dvd a ^ n \<Longrightarrow> p dvd a"
proof (induction n)
  case 0
  then show ?case using is_prime_gt1 [of p] by simp
next
  case (Suc n)
  then show ?case using is_prime_dvd_mult [of p a "a ^ n"] by auto
qed

lemma is_prime_dvd_prime: "is_prime p \<Longrightarrow> is_prime q \<Longrightarrow> p dvd q \<Longrightarrow> p = q"
  by (metis is_prime_iff is_prime_gt1 less_irrefl order_less_trans zero_less_one)

lemma dvd_prime_power:
  fixes x :: int
  assumes "is_prime p" "0 < x"
  shows "x dvd p ^ m \<Longrightarrow> \<exists>e \<le> m. x = p ^ e"
  using assms(2)
proof (induction m arbitrary: x)
  case 0
  then show ?case by (auto simp: zdvd1_eq)
next
  case (Suc m)
  show ?case
  proof (cases "p dvd x")
    case True
    then obtain y where y: "x = p * y" by (auto simp: dvd_def)
    have p0: "0 < p" using assms(1) is_prime_gt1 by force
    have "y dvd p ^ m" using Suc.prems(1) y p0 by simp
    moreover have "0 < y" using Suc.prems(2) y p0 by (simp add: zero_less_mult_iff)
    ultimately obtain e where "e \<le> m" "y = p ^ e" using Suc.IH by blast
    then have "Suc e \<le> Suc m" "x = p ^ Suc e" using y by auto
    then show ?thesis by blast
  next
    case False
    then have "coprime x p" using is_prime_coprime [OF assms(1), of x] by (simp add: coprime_commute)
    then have "x dvd p ^ m" using Suc.prems(1) by (simp add: coprime_dvd_mult_right_iff)
    then obtain e where "e \<le> m" "x = p ^ e" using Suc.IH Suc.prems(2) by blast
    then show ?thesis using le_Suc_eq by blast
  qed
qed

lemma prime_above: "\<exists>p. is_prime p \<and> n < p"
proof -
  define k where "k = nat \<bar>n\<bar>"
  have "1 < (fact k :: int) + 1" by (simp add: fact_gt_zero)
  then obtain p where p: "is_prime p" "p dvd fact k + 1" using prime_factor_exists by blast
  have "\<not> p \<le> int k"
  proof
    assume le: "p \<le> int k"
    have "0 < p" using p(1) is_prime_gt1 by force
    then have "nat p dvd (fact k :: nat)"
      using le by (intro dvd_fact) auto
    then have "int (nat p) dvd int (fact k)" by (simp only: int_dvd_int_iff)
    then have "p dvd (fact k :: int)" using \<open>0 < p\<close> by simp
    then have "p dvd 1" using p(2) by (simp add: dvd_add_right_iff)
    then show False using p(1) is_prime_gt1 [of p] by simp
  qed
  then show ?thesis using p(1) by (auto simp: k_def)
qed

section \<open>Counters\<close>

lemma get_notin: "k \<notin> set (keys d) \<Longrightarrow> get d k = 0"
  by (induction d) (auto simp: keys_def)

lemma put_notin: "k \<notin> set (keys d) \<Longrightarrow> put k v d = d @ [(k, v)]"
  by (induction d) (auto simp: keys_def)

lemma get_append_last: "k \<notin> set (keys d) \<Longrightarrow> get (d @ [(k, v)]) k = v"
  by (induction d) (auto simp: keys_def)

lemma put_append_last: "k \<notin> set (keys d) \<Longrightarrow> put k v' (d @ [(k, v)]) = d @ [(k, v')]"
  by (induction d) (auto simp: keys_def)

lemma get_in: "distinct (keys d) \<Longrightarrow> (k, v) \<in> set d \<Longrightarrow> get d k = v"
  by (induction d) (force simp: keys_def)+

lemma foldl_times: "foldl (*) a xs = a * prod_list xs" for a :: int
  by (induction xs arbitrary: a) (simp_all add: mult.assoc)

lemma product_of_pairs:
  assumes "distinct (keys d)"
  shows "product_of d = pairs_product d"
proof -
  have "map (\<lambda>p. p ^ get d p) (keys d) = map (\<lambda>(p, m). p ^ m) d"
    unfolding keys_def map_map
    by (rule map_cong [OF refl]) (use assms in \<open>auto simp: get_in\<close>)
  then show ?thesis by (simp add: product_of_def pairs_product_def foldl_times)
qed

lemma pairs_product_append [simp]:
  "pairs_product (d @ e) = pairs_product d * pairs_product e"
  by (simp add: pairs_product_def)

section \<open>The inner loop on a power of the trial prime\<close>

lemma divide_while_counted:
  assumes "pr \<noteq> 0" "\<not> pr dvd M" "pr \<notin> set (keys d)"
  shows "divide_while pr (pr ^ e * M) (d @ [(pr, c)]) = Some (M, d @ [(pr, c + e)])"
proof (induction e arbitrary: c)
  case 0
  then show ?case using assms by (simp add: divide_while_stop dvd_eq_mod_eq_0)
next
  case (Suc e)
  have "(pr ^ Suc e * M) mod pr = 0" by simp
  moreover have "(pr ^ Suc e * M) div pr = pr ^ e * M" using assms(1) by simp
  ultimately have "divide_while pr (pr ^ Suc e * M) (d @ [(pr, c)])
      = divide_while pr (pr ^ e * M) (d @ [(pr, c + 1)])"
    using assms(3) by (simp add: divide_while_step get_append_last put_append_last)
  then show ?case using Suc.IH [of "c + 1"] by simp
qed

lemma divide_while_power:
  assumes "pr \<noteq> 0" "\<not> pr dvd M" "pr \<notin> set (keys d)"
  shows "divide_while pr (pr ^ e * M) d = Some (M, if e = 0 then d else d @ [(pr, e)])"
proof (cases e)
  case 0
  then show ?thesis using assms by (simp add: divide_while_stop dvd_eq_mod_eq_0)
next
  case (Suc e')
  have "(pr ^ Suc e' * M) mod pr = 0" by simp
  moreover have "(pr ^ Suc e' * M) div pr = pr ^ e' * M" using assms(1) by simp
  ultimately have "divide_while pr (pr ^ Suc e' * M) d
      = divide_while pr (pr ^ e' * M) (d @ [(pr, 1)])"
    using assms(3) by (simp add: divide_while_step get_notin put_notin)
  then show ?thesis using divide_while_counted [OF assms, of e' 1] Suc by simp
qed

lemma power_split:
  fixes N pr :: int
  assumes "2 \<le> pr"
  shows "1 \<le> N \<Longrightarrow> \<exists>e M. N = pr ^ e * M \<and> \<not> pr dvd M \<and> 1 \<le> M"
proof (induction "nat N" arbitrary: N rule: less_induct)
  case less
  show ?case
  proof (cases "pr dvd N")
    case False
    then have "N = pr ^ 0 * N \<and> \<not> pr dvd N \<and> 1 \<le> N" using less.prems by simp
    then show ?thesis by blast
  next
    case True
    then obtain N' where N': "N = pr * N'" by (auto simp: dvd_def)
    have pos: "0 < N'" using N' less.prems assms zero_less_mult_pos [of pr N'] by simp
    have "N' < N" using N' pos assms by (simp add: mult_less_cancel_right2 [of N' pr] mult.commute)
    then have "nat N' < nat N" using pos by simp
    then obtain e M where "N' = pr ^ e * M" "\<not> pr dvd M" "1 \<le> M"
      using less.hyps [of N'] pos by force
    then have "N = pr ^ Suc e * M \<and> \<not> pr dvd M \<and> 1 \<le> M" using N' by simp
    then show ?thesis by blast
  qed
qed

section \<open>Trial division over an ascending table of primes\<close>

lemma small_square_prime:
  assumes "1 < N" "pr ^ 2 > N" "0 < pr"
    and "\<forall>q. is_prime q \<and> q dvd N \<longrightarrow> pr \<le> q"
  shows "is_prime N"
proof (rule ccontr)
  assume "\<not> is_prime N"
  then obtain q where q: "is_prime q" "q dvd N" "q * q \<le> N"
    using composite_small_factor [OF assms(1)] by blast
  then have "pr \<le> q" using assms(4) by blast
  then have "pr * pr \<le> q * q" using assms(3) by (intro mult_mono) auto
  then show False using q(3) assms(2) by (simp add: power2_eq_square)
qed

lemma trial_correct:
  assumes "sorted_wrt (<) ps" "\<forall>p \<in> set ps. is_prime p"
    and "1 < N" "\<forall>q. is_prime q \<and> q dvd N \<longrightarrow> q \<in> set ps"
    and "distinct (keys d)" "\<forall>k \<in> set (keys d). is_prime k \<and> k \<notin> set ps \<and> \<not> k dvd N"
  shows "\<exists>d'. trial ps N d = Some (Inr d') \<and> distinct (keys d')
           \<and> (\<forall>k \<in> set (keys d'). is_prime k)
           \<and> pairs_product d' = pairs_product d * N"
  using assms
proof (induction ps arbitrary: N d)
  case Nil
  then show ?case using prime_factor_exists [of N] by auto
next
  case (Cons pr rest)
  have pr: "is_prime pr" "1 < pr" using Cons.prems(2) is_prime_gt1 by auto
  have above: "\<forall>y \<in> set rest. pr < y" and srest: "sorted_wrt (<) rest"
    using Cons.prems(1) by auto
  have prest: "\<forall>p \<in> set rest. is_prime p" using Cons.prems(2) by simp
  have pr_new: "pr \<notin> set (keys d)" using Cons.prems(6) by auto
  show ?case
  proof (cases "pr ^ 2 > N")
    case True
    have "\<forall>q. is_prime q \<and> q dvd N \<longrightarrow> pr \<le> q"
      using Cons.prems(4) above by fastforce
    then have pN: "is_prime N"
      using small_square_prime [OF Cons.prems(3) True] pr(2) by simp
    have N_new: "N \<notin> set (keys d)" using Cons.prems(6) by auto
    have "trial (pr # rest) N d = Some (Inr (d @ [(N, 1)]))"
      using True N_new by (simp add: put_notin)
    moreover have "distinct (keys (d @ [(N, 1)]))"
      using Cons.prems(5) N_new by (simp add: keys_def)
    moreover have "\<forall>k \<in> set (keys (d @ [(N, 1)])). is_prime k"
      using Cons.prems(6) pN by (auto simp: keys_def)
    moreover have "pairs_product (d @ [(N, 1)]) = pairs_product d * N"
      by (simp add: pairs_product_def)
    ultimately show ?thesis by blast
  next
    case False
    obtain e M where eM: "N = pr ^ e * M" "\<not> pr dvd M" "1 \<le> M"
      using power_split [of pr N] pr(2) Cons.prems(3) by force
    define d1 where "d1 = (if e = 0 then d else d @ [(pr, e)])"
    have dw: "divide_while pr N d = Some (M, d1)"
      unfolding d1_def eM(1) using divide_while_power [of pr M d e] pr(2) eM(2) pr_new by simp
    have keys1: "set (keys d1) \<subseteq> insert pr (set (keys d))"
      by (auto simp: d1_def keys_def)
    have dist1: "distinct (keys d1)"
      using Cons.prems(5) pr_new by (simp add: d1_def keys_def)
    have prime1: "\<forall>k \<in> set (keys d1). is_prime k"
      using keys1 Cons.prems(6) pr(1) by blast
    have prod1: "pairs_product d1 = pairs_product d * pr ^ e"
      by (simp add: d1_def pairs_product_def)
    have unfold: "trial (pr # rest) N d = (if M = 1 then Some (Inr d1) else trial rest M d1)"
      using False pr(2) dw by simp
    show ?thesis
    proof (cases "M = 1")
      case True
      then show ?thesis using unfold dist1 prime1 prod1 eM(1) by simp
    next
      case M1: False
      have M_dvd: "M dvd N" using eM(1) by simp
      have "1 < M" using eM(3) M1 by simp
      moreover have "\<forall>q. is_prime q \<and> q dvd M \<longrightarrow> q \<in> set rest"
      proof (intro allI impI)
        fix q assume q: "is_prime q \<and> q dvd M"
        then have "q dvd N" using M_dvd dvd_trans by blast
        then have "q \<in> set (pr # rest)" using Cons.prems(4) q by blast
        moreover have "q \<noteq> pr" using q eM(2) by blast
        ultimately show "q \<in> set rest" by simp
      qed
      moreover have "\<forall>k \<in> set (keys d1). is_prime k \<and> k \<notin> set rest \<and> \<not> k dvd M"
      proof
        fix k assume k: "k \<in> set (keys d1)"
        show "is_prime k \<and> k \<notin> set rest \<and> \<not> k dvd M"
        proof (cases "k = pr")
          case True
          then show ?thesis using pr(1) above eM(2) by auto
        next
          case False
          then have "k \<in> set (keys d)" using k keys1 by blast
          then have "is_prime k" "k \<notin> set (pr # rest)" "\<not> k dvd N"
            using Cons.prems(6) by auto
          then show ?thesis using M_dvd dvd_trans by auto
        qed
      qed
      ultimately obtain d' where "trial rest M d1 = Some (Inr d')" "distinct (keys d')"
        "\<forall>k \<in> set (keys d'). is_prime k" "pairs_product d' = pairs_product d1 * M"
        using Cons.IH [OF srest prest _ _ dist1] by blast
      then show ?thesis using unfold M1 prod1 eM(1) by (simp add: mult.assoc)
    qed
  qed
qed

text \<open>What \<open>primeDecomposition\<close> returns for a target whose prime factors are all in the table.\<close>

lemma primeDecomposition_correct:
  assumes "sorted_wrt (<) ps" "\<forall>p \<in> set ps. is_prime p"
    and "1 < \<bar>N\<bar>" "\<forall>q. is_prime q \<and> q dvd N \<longrightarrow> q \<in> set ps"
  shows "\<exists>d. primeDecomposition ps N = Some (Inr d) \<and> distinct (keys d)
           \<and> (\<forall>k \<in> set (keys d). is_prime k) \<and> pairs_product d = \<bar>N\<bar>"
proof -
  have "\<forall>q. is_prime q \<and> q dvd \<bar>N\<bar> \<longrightarrow> q \<in> set ps" using assms(4) by simp
  then obtain d' where "trial ps \<bar>N\<bar> [] = Some (Inr d')" "distinct (keys d')"
      "\<forall>k \<in> set (keys d'). is_prime k" "pairs_product d' = pairs_product [] * \<bar>N\<bar>"
    using trial_correct [OF assms(1,2,3), of "[]"] by (auto simp: keys_def)
  then show ?thesis using assms(3) by (auto simp: primeDecomposition_def pairs_product_def)
qed

lemma primeDecomposition_unit:
  assumes "\<forall>p \<in> set ps. is_prime p" "\<bar>N\<bar> = 1"
  shows "primeDecomposition ps N = Some (Inr (if ps = [] then [] else [(1, 1)]))"
proof (cases ps)
  case Nil
  then show ?thesis using assms(2) by (auto simp: primeDecomposition_def)
next
  case (Cons p rest)
  then have "1 < p" using assms(1) is_prime_gt1 by simp
  then have "1 < p ^ 2" by (simp add: power2_eq_square less_1_mult)
  then show ?thesis using assms(2) Cons by (auto simp: primeDecomposition_def)
qed

section \<open>The certificate of the program's own decomposition\<close>

lemma pairs_product_Nil [simp]: "pairs_product [] = 1"
  by (simp add: pairs_product_def)

lemma product_of_Nil [simp]: "product_of [] = 1"
  by (simp add: product_of_def keys_def)

lemma certificate_of_own_true:
  assumes "sorted_wrt (<) ps" "\<forall>p \<in> set ps. is_prime p"
    and "target \<noteq> 0" "\<forall>q. is_prime q \<and> q dvd target \<longrightarrow> q \<in> set ps"
  shows "certificate_of_own ps target = Some (Inr True)"
proof (cases "\<bar>target\<bar> = 1")
  case True
  then show ?thesis
    using primeDecomposition_unit [OF assms(2) True]
    by (auto simp: certificate_of_own_def decompCertificate_def product_of_def keys_def)
next
  case False
  then have "1 < \<bar>target\<bar>" using assms(3) by simp
  then obtain d where d: "primeDecomposition ps target = Some (Inr d)" "distinct (keys d)"
      "pairs_product d = \<bar>target\<bar>"
    using primeDecomposition_correct [OF assms(1,2) _ assms(4)] by blast
  have "d \<noteq> []" using d(3) False by auto
  then show ?thesis
    using d by (simp add: certificate_of_own_def decompCertificate_def product_of_pairs)
qed

lemma finite_table_misses_prime: "\<exists>q. is_prime q \<and> q \<notin> set ps" for ps :: "int list"
proof (cases "ps = []")
  case True
  then show ?thesis using prime_above [of 0] by auto
next
  case False
  obtain q where q: "is_prime q" "Max (set ps) < q" using prime_above by blast
  have "q \<notin> set ps"
  proof
    assume "q \<in> set ps"
    then have "q \<le> Max (set ps)" by (intro Max_ge) auto
    then show False using q(2) by simp
  qed
  then show ?thesis using q(1) by blast
qed

lemma trial_no_hit:
  assumes "\<forall>p \<in> set ps. p \<noteq> 0 \<and> p ^ 2 \<le> N \<and> \<not> p dvd N" "N \<noteq> 1"
  shows "trial ps N d = Some (Inr d)"
  using assms
proof (induction ps)
  case Nil
  then show ?case by simp
next
  case (Cons p rest)
  have p: "p \<noteq> 0" "\<not> p ^ 2 > N" "\<not> p dvd N" using Cons.prems(1) by simp_all
  then have stop: "divide_while p N d = Some (N, d)"
    by (intro divide_while_stop) (simp add: dvd_eq_mod_eq_0)
  have "trial rest N d = Some (Inr d)" using Cons.IH Cons.prems by simp
  then show ?case using p(1,2) stop Cons.prems(2) by simp
qed

lemma certificate_of_own_large_prime:
  assumes "\<forall>p \<in> set ps. is_prime p \<and> p \<le> M" "is_prime target" "M ^ 2 < target"
  shows "certificate_of_own ps target = Some (Inr False)"
proof -
  have t1: "1 < target" using assms(2) is_prime_gt1 by simp
  have "p \<noteq> 0 \<and> p ^ 2 \<le> target \<and> \<not> p dvd target" if "p \<in> set ps" for p
  proof -
    have p: "is_prime p" "p \<le> M" "1 < p" using that assms(1) is_prime_gt1 by auto
    then have "p ^ 2 \<le> M ^ 2" by (intro power_mono) auto
    moreover have "p < target"
    proof -
      have "p * 1 \<le> p * p" using p(3) by (intro mult_left_mono) auto
      then show ?thesis using calculation assms(3) by (simp add: power2_eq_square)
    qed
    moreover have "\<not> p dvd target"
      using is_prime_dvd_prime [OF p(1) assms(2)] \<open>p < target\<close> by auto
    ultimately show ?thesis using p(3) assms(3) by auto
  qed
  then have "trial ps target [] = Some (Inr [])" using t1 by (intro trial_no_hit) auto
  then have "primeDecomposition ps target = Some (Inr [])"
    using t1 by (simp add: primeDecomposition_def)
  then show ?thesis using t1
    by (simp add: certificate_of_own_def decompCertificate_def)
qed

section \<open>The table of all primes up to a bound\<close>

lemma set_primes_upto: "set (primes_upto M) = {p. is_prime p \<and> p \<le> M}"
proof -
  have "2 \<le> p" if "is_prime p" for p using is_prime_gt1 [OF that] by simp
  then show ?thesis unfolding primes_upto_def by auto
qed

lemma sorted_primes_upto: "sorted_wrt (<) (primes_upto M)"
  unfolding primes_upto_def strict_sorted_iff by (simp add: sorted_wrt_filter)

section \<open>Fixed inputs\<close>

text \<open>
  Claim C5. \<open>primeDecomposition(0)\<close> is the empty Counter whatever the table is, and
  \<open>primeDecomposition(360)\<close> is \<open>{2: 3, 3: 2, 5: 1}\<close> for every table whose ascending
  listing starts with 2, 3, 5, that is, every table holding the primes up to at least 5.
\<close>

theorem primeDecomposition_zero_and_360:
  "primeDecomposition orderedPrimes 0 = Some (Inr [])
   \<and> primeDecomposition (2 # 3 # 5 # rest) 360 = Some (Inr [(2, 3), (3, 2), (5, 1)])"
  by (simp add: primeDecomposition_def divide_while.simps)

text \<open>
  Claim C10. \<open>decompCertificate(0)\<close> is false both without a decomposition and with the
  empty decomposition supplied: the empty product is 1, which is not \<open>|0|\<close>.
\<close>

theorem decompCertificate_zero_false:
  "decompCertificate orderedPrimes 0 None = Some (Inr False)
   \<and> decompCertificate orderedPrimes 0 (Some []) = Some (Inr False)"
  by (simp add: decompCertificate_def primeDecomposition_def product_of_def keys_def)

end
